theory Spec2Isabelle
  imports
    Main
    "HOL-Library.Sublist"
    "HOL-Library.Multiset"
    "HOL-Library.Char_ord"
    "HOL-Library.List_Lexorder"
begin

section \<open>Data model of the chat view\<close>

text \<open>
  The entities that \<^verbatim>\<open>Chat.tsx\<close> reads. A participant and an assistant both have an
  \<^verbatim>\<open>id\<close> field in the source; the two fields are told apart by a prefix here. Both
  records are extensible, so every function below also accepts entries that carry the
  further fields of the real objects and hands them on untouched.
\<close>

record participant =
  participant_id :: string
  role :: string
  active :: bool

record assistant =
  assistant_id :: string
  assistant_name :: string

record conversation =
  conversation_id :: string
  title :: string
  conversationPermission :: string

section \<open>Array primitives of the runtime\<close>

text \<open>
  \<^verbatim>\<open>Array.prototype.sort(compareFn)\<close>: a stable sort under a comparator that returns a
  number; an element stays in front of another one exactly when the comparator does not
  return a positive number for the pair. Stable insertion from the right end computes
  that order.
\<close>

fun insertSorted :: "('a \<Rightarrow> 'a \<Rightarrow> int) \<Rightarrow> 'a \<Rightarrow> 'a list \<Rightarrow> 'a list" where
  "insertSorted compareFn x [] = [x]"
| "insertSorted compareFn x (y # ys) =
     (if compareFn x y \<le> 0 then x # y # ys else y # insertSorted compareFn x ys)"

definition arraySort :: "('a \<Rightarrow> 'a \<Rightarrow> int) \<Rightarrow> 'a list \<Rightarrow> 'a list" where
  "arraySort compareFn xs = foldr (insertSorted compareFn) xs []"

section \<open>The conversationAssistants computation\<close>

text \<open>
  The guard of the loop body, \<^verbatim>\<open>!active || role !== 'assistant'\<close>, skips a participant;
  \<open>activeAssistant\<close> abbreviates its negation in the statements below.
\<close>

abbreviation activeAssistant :: "'p participant_scheme \<Rightarrow> bool" where
  "activeAssistant p \<equiv> active p \<and> role p = ''assistant''"

text \<open>\<^verbatim>\<open>assistants.find((assistant) => assistant.id === conversationParticipant.id)\<close>\<close>

definition findAssistant ::
  "'a assistant_scheme list \<Rightarrow> 'p participant_scheme \<Rightarrow> 'a assistant_scheme option" where
  "findAssistant assistants p = find (\<lambda>a. assistant_id a = participant_id p) assistants"

text \<open>
  The \<^verbatim>\<open>for ... of\<close> loop over the participants. \<open>results\<close> is the array under
  construction and \<open>calls\<close> counts the invocations of \<^verbatim>\<open>assistantsRefetch\<close>. The loop
  ends with \<open>None\<close> (the bare \<^verbatim>\<open>return\<close>, that is \<^verbatim>\<open>undefined\<close>) at a participant the
  directory does not hold.
\<close>

fun assistantsLoop ::
  "'a assistant_scheme list \<Rightarrow> 'p participant_scheme list \<Rightarrow> 'a assistant_scheme list \<Rightarrow> nat
    \<Rightarrow> 'a assistant_scheme list option \<times> nat" where
  "assistantsLoop assistants [] results calls = (Some results, calls)"
| "assistantsLoop assistants (p # rest) results calls =
     (if \<not> active p \<or> role p \<noteq> ''assistant'' then assistantsLoop assistants rest results calls
      else
        (case findAssistant assistants p of
           Some a \<Rightarrow> assistantsLoop assistants rest (results @ [a]) calls
         | None \<Rightarrow> (None, calls + 1)))"

text \<open>
  The body of the \<^verbatim>\<open>useMemo\<close>. \<open>localeCompare\<close> is \<^verbatim>\<open>String.prototype.localeCompare\<close> of
  the runtime, taken as a parameter. An argument that is \<open>None\<close> is a value that has not
  loaded (\<^verbatim>\<open>undefined\<close>); an array, also an empty one, is truthy.
\<close>

definition conversationAssistants ::
  "(string \<Rightarrow> string \<Rightarrow> int) \<Rightarrow> 'p participant_scheme list option
    \<Rightarrow> 'a assistant_scheme list option \<Rightarrow> nat \<Rightarrow> 'a assistant_scheme list option \<times> nat" where
  "conversationAssistants localeCompare conversationParticipants assistants calls =
     (case conversationParticipants of
        None \<Rightarrow> (Some [], calls)
      | Some ps \<Rightarrow>
          (case assistants of
             None \<Rightarrow> (Some [], calls)
           | Some dir \<Rightarrow>
               (case assistantsLoop dir ps [] calls of
                  (None, calls') \<Rightarrow> (None, calls')
                | (Some results, calls') \<Rightarrow>
                    (Some (arraySort
                       (\<lambda>a b. localeCompare (assistant_name a) (assistant_name b)) results),
                     calls'))))"

text \<open>
  A comparator for concrete runs: the order of the character codes, one of the orders
  a locale may give.
\<close>

definition ordinalCompare :: "string \<Rightarrow> string \<Rightarrow> int" where
  "ordinalCompare a b = (if a < b then - 1 else if a = b then 0 else 1)"


section \<open>The Chat component\<close>

text \<open>
  What \<^verbatim>\<open>useHistoryUtility(conversationId)\<close> hands to one render. A resource that is
  absent is \<open>None\<close>. Messages, files and capabilities are opaque to the component. A
  callback is a function object; the dependency list of an effect compares it by identity,
  so it is held as an identity.
\<close>

type_synonym callback = nat

record ('e, 'm, 'f, 'c) history =
  conversation :: "conversation option"
  allConversationMessages :: "'m list option"
  conversationParticipants :: "participant list option"
  assistants :: "assistant list option"
  conversationFiles :: "'f list option"
  assistantCapabilities :: 'c
  error :: "'e option"
  isLoading :: bool
  assistantCapabilitiesIsFetching :: bool
  refetchConversation :: callback

text \<open>
  \<^verbatim>\<open>sortParticipants(conversationParticipants).filter((participant) => participant.id !== localUserId)\<close>.
  \<open>sortParticipants\<close> comes from \<^verbatim>\<open>useParticipantUtility\<close> and is a parameter. The id of
  the local user is read from the store and may be undefined there (\<open>None\<close>); the strict
  inequality then holds for every participant.
\<close>

definition otherParticipants ::
  "(participant list \<Rightarrow> participant list) \<Rightarrow> string option \<Rightarrow> participant list
    \<Rightarrow> participant list" where
  "otherParticipants sortParticipants localUserId ps =
     filter (\<lambda>participant. Some (participant_id participant) \<noteq> localUserId)
       (sortParticipants ps)"

text \<open>
  What a render returns: the loading placeholder, or the chat with the values the component
  computes for its children.
\<close>

datatype view =
  Loading
| ChatView (readOnly: bool) (avatars: "participant list") (canvasAssistants: "assistant list option")

text \<open>
  One render of \<^verbatim>\<open>Chat\<close>, in the order of the source: the check of the load error, the
  memoised assistant list (computed here at every render), the loading placeholder, the
  five checks of the resources, the view. A thrown \<^verbatim>\<open>Error\<close> is \<open>Inl\<close> of its message.
  \<open>calls\<close> counts the invocations of \<^verbatim>\<open>assistantsRefetch\<close>. \<open>JSON_stringify\<close> is
  \<^verbatim>\<open>JSON.stringify\<close> of the runtime.
\<close>

definition Chat ::
  "('e \<Rightarrow> string) \<Rightarrow> (string \<Rightarrow> string \<Rightarrow> int) \<Rightarrow> (participant list \<Rightarrow> participant list)
    \<Rightarrow> string option \<Rightarrow> string \<Rightarrow> ('e, 'm, 'f, 'c) history \<Rightarrow> nat \<Rightarrow> (string + view) \<times> nat" where
  "Chat JSON_stringify localeCompare sortParticipants localUserId conversationId h calls =
     (case error h of
        Some historyError \<Rightarrow>
          (Inl (''Error loading conversation ('' @ conversationId @ ''): ''
                  @ JSON_stringify historyError), calls)
      | None \<Rightarrow>
          (case conversationAssistants localeCompare (conversationParticipants h) (assistants h)
                  calls of
             (memo, calls') \<Rightarrow>
               if isLoading h \<or> assistantCapabilitiesIsFetching h then (Inr Loading, calls')
               else
                 (case conversation h of
                    None \<Rightarrow> (Inl (''Conversation ('' @ conversationId @ '') not found''), calls')
                  | Some c \<Rightarrow>
                 (case allConversationMessages h of
                    None \<Rightarrow>
                      (Inl (''All conversation messages ('' @ conversationId @ '') not found''),
                       calls')
                  | Some ms \<Rightarrow>
                 (case conversationParticipants h of
                    None \<Rightarrow>
                      (Inl (''Conversation participants ('' @ conversationId @ '') not found''),
                       calls')
                  | Some ps \<Rightarrow>
                 (case assistants h of
                    None \<Rightarrow> (Inl (''Assistants ('' @ conversationId @ '') not found''), calls')
                  | Some dir \<Rightarrow>
                 (case conversationFiles h of
                    None \<Rightarrow>
                      (Inl (''Conversation files ('' @ conversationId @ '') not found''), calls')
                  | Some fs \<Rightarrow>
                      (Inr (ChatView (conversationPermission c = ''read'')
                              (otherParticipants sortParticipants localUserId ps) memo),
                       calls'))))))))"

section \<open>The subscription to conversation events\<close>

text \<open>The message of \<^verbatim>\<open>@microsoft/fetch-event-source\<close> that a listener receives.\<close>

record EventSourceMessage =
  event_id :: string
  event :: string
  data :: string
  retry :: "nat option"

text \<open>
  A listener on the bus. Each run of the effect makes a new \<^verbatim>\<open>conversationHandler\<close>
  closure: it has an identity of its own and holds the \<^verbatim>\<open>refetchConversation\<close> of that
  render. The listeners of the rest of the application are \<open>OtherListener\<close>.
\<close>

datatype listener = ConversationHandler nat callback | OtherListener nat

type_synonym event_bus = "(string \<times> listener) list"

text \<open>
  Modelled from the spec: the event bus \<^verbatim>\<open>workbenchConversationEvents\<close>, exported by
  \<^verbatim>\<open>routes/FrontDoor\<close>, which is not among the sources. The spec: "a named event channel
  emitting at least conversation.updated, consumed via add/remove-listener semantics".
  The bus keeps (event type, listener) pairs in the order of registration; adding a pair
  it holds changes nothing, removing drops the pair.
\<close>

definition addEventListener :: "string \<Rightarrow> listener \<Rightarrow> event_bus \<Rightarrow> event_bus" where
  "addEventListener type l bus = (if (type, l) \<in> set bus then bus else bus @ [(type, l)])"

definition removeEventListener :: "string \<Rightarrow> listener \<Rightarrow> event_bus \<Rightarrow> event_bus" where
  "removeEventListener type l bus = removeAll (type, l) bus"

text \<open>
  Modelled from the spec: \<^verbatim>\<open>refetchConversation\<close> of \<^verbatim>\<open>useHistoryUtility\<close>, which is not
  among the sources. The spec: "a full re-fetch of conversation, message, participant, and
  file state (no incremental/delta protocol)". A request asks for a resource in full or
  for the changes after a cursor; one call issues the four full requests.
\<close>

datatype resource = ConversationState | MessageState | ParticipantState | FileState

datatype request = FullFetch resource | DeltaFetch resource nat

definition callRefetchConversation :: "request list \<Rightarrow> request list" where
  "callRefetchConversation sent =
     sent @ [FullFetch ConversationState, FullFetch MessageState, FullFetch ParticipantState,
             FullFetch FileState]"

text \<open>
  The bus, the effects of the handlers of this component, and what React keeps for the
  effect of lines 149 to 165: whether the component is mounted, the dependency values of
  the last run, the cleanup that run returned (the listener it removes) and the number of
  closures made so far. \<open>refetchCalls\<close> lists the invocations of
  \<^verbatim>\<open>refetchConversation\<close>, oldest first; \<open>pending\<close> counts those whose promise has not
  settled.
\<close>

record world =
  listeners :: event_bus
  refetchCalls :: "callback list"
  requests :: "request list"
  pending :: nat
  mounted :: bool
  deps :: "(bool \<times> callback) option"
  cleanup :: "listener option"
  closures :: nat

text \<open>
  \<^verbatim>\<open>async (_event) => { await refetchConversation(); }\<close>: the message is not read.
\<close>

definition conversationHandler :: "callback \<Rightarrow> EventSourceMessage \<Rightarrow> world \<Rightarrow> world" where
  "conversationHandler refetch ev w =
     w\<lparr>refetchCalls := refetchCalls w @ [refetch],
       requests := callRefetchConversation (requests w),
       pending := pending w + 1\<rparr>"

fun dispatch :: "listener \<Rightarrow> EventSourceMessage \<Rightarrow> world \<Rightarrow> world" where
  "dispatch (ConversationHandler closure refetch) ev w = conversationHandler refetch ev w"
| "dispatch (OtherListener n) ev w = w"

text \<open>The bus delivers a message to the listeners of its type, in their order.\<close>

definition emit :: "string \<Rightarrow> EventSourceMessage \<Rightarrow> world \<Rightarrow> world" where
  "emit type ev w =
     foldl (\<lambda>w' (type', l). if type' = type then dispatch l ev w' else w') w (listeners w)"

text \<open>
  The body of the effect: nothing while the history loads (no cleanup is returned);
  otherwise a new handler is added, and the cleanup returned removes that handler.
\<close>

definition conversationEffect :: "bool \<Rightarrow> callback \<Rightarrow> world \<Rightarrow> world" where
  "conversationEffect historyIsLoading refetch w =
     (if historyIsLoading then w\<lparr>cleanup := None\<rparr>
      else
        (let handler = ConversationHandler (closures w) refetch in
         w\<lparr>listeners := addEventListener ''conversation.updated'' handler (listeners w),
           cleanup := Some handler,
           closures := closures w + 1\<rparr>))"

definition runCleanup :: "world \<Rightarrow> world" where
  "runCleanup w =
     (case cleanup w of
        None \<Rightarrow> w
      | Some handler \<Rightarrow>
          w\<lparr>listeners := removeEventListener ''conversation.updated'' handler (listeners w),
            cleanup := None\<rparr>)"

text \<open>
  What can happen to the mounted view. \<open>Commit\<close> is a render that React commits, with the
  values of the dependency list \<^verbatim>\<open>[historyIsLoading, refetchConversation]\<close>: on the first
  commit, and on a later one whose dependency values differ from those of the last run,
  React runs the cleanup of the last run and then the effect; otherwise it skips the
  effect. \<open>Unmount\<close> runs the cleanup. \<open>Emit\<close> is the bus delivering a message; \<open>Settle\<close>
  is a pending refetch that completes. A commit is one step: the time between a change of
  the history and the commit of the render that reads it, during which the listener of the
  last run is still on the bus, is not a state of its own. A commit after an unmount is
  the first commit of a new mount.
\<close>

datatype action = Commit bool callback | Unmount | Emit string EventSourceMessage | Settle

fun step :: "world \<Rightarrow> action \<Rightarrow> world" where
  "step w (Commit historyIsLoading refetch) =
     (if mounted w \<and> deps w = Some (historyIsLoading, refetch) then w
      else (conversationEffect historyIsLoading refetch (runCleanup w))
             \<lparr>mounted := True, deps := Some (historyIsLoading, refetch)\<rparr>)"
| "step w Unmount = (runCleanup w)\<lparr>mounted := False, deps := None\<rparr>"
| "step w (Emit type ev) = emit type ev w"
| "step w Settle = w\<lparr>pending := pending w - 1\<rparr>"

definition run :: "world \<Rightarrow> action list \<Rightarrow> world" where
  "run w acts = foldl step w acts"

text \<open>Before the view mounts the bus holds the listeners of the rest of the application.\<close>

definition unmounted :: "(string \<times> nat) list \<Rightarrow> world" where
  "unmounted others =
     \<lparr>listeners = map (\<lambda>(type, n). (type, OtherListener n)) others,
      refetchCalls = [], requests = [], pending = 0,
      mounted = False, deps = None, cleanup = None, closures = 0\<rparr>"

fun ownListener :: "string \<times> listener \<Rightarrow> bool" where
  "ownListener (type, ConversationHandler closure refetch) = True"
| "ownListener (type, OtherListener n) = False"

text \<open>
  A listener of this component on the bus is older than the next closure to be made.
\<close>

fun younger :: "nat \<Rightarrow> string \<times> listener \<Rightarrow> bool" where
  "younger k (type, ConversationHandler closure refetch) \<longleftrightarrow> closure < k"
| "younger k (type, OtherListener n) \<longleftrightarrow> True"

text \<open>
  The invariant of the subscription: the listeners of this component on the bus are
  exactly the one that the pending cleanup removes, if there is a pending cleanup, and none
  otherwise; a cleanup is pending exactly while the view is mounted and the last run of the
  effect saw a history that had loaded, and its handler holds the callback of that run.
\<close>

definition subscriptionInv :: "world \<Rightarrow> bool" where
  "subscriptionInv w \<longleftrightarrow>
     filter ownListener (listeners w) =
       (case cleanup w of None \<Rightarrow> [] | Some handler \<Rightarrow> [(''conversation.updated'', handler)])
     \<and> (\<forall>handler. cleanup w = Some handler \<longrightarrow>
          (\<exists>closure refetch. handler = ConversationHandler closure refetch
             \<and> mounted w \<and> deps w = Some (False, refetch)))
     \<and> (\<forall>refetch. mounted w \<and> deps w = Some (False, refetch) \<longrightarrow>
          (\<exists>closure. cleanup w = Some (ConversationHandler closure refetch)))
     \<and> list_all (younger (closures w)) (listeners w)"

text \<open>
  What a render means for the mounted view: a render that throws is caught by the error
  boundary of the rendering layer, which unmounts the view; any other render is committed
  with the dependency values it read.
\<close>

definition renderAction ::
  "('e \<Rightarrow> string) \<Rightarrow> (string \<Rightarrow> string \<Rightarrow> int) \<Rightarrow> (participant list \<Rightarrow> participant list)
    \<Rightarrow> string option \<Rightarrow> string \<Rightarrow> ('e, 'm, 'f, 'c) history \<Rightarrow> action" where
  "renderAction JSON_stringify localeCompare sortParticipants localUserId conversationId h =
     (case fst (Chat JSON_stringify localeCompare sortParticipants localUserId conversationId
                  h 0) of
        Inl message \<Rightarrow> Unmount
      | Inr v \<Rightarrow> Commit (isLoading h) (refetchConversation h))"

section \<open>The .NET connector\<close>

text \<open>
  \<^verbatim>\<open>MyWorkbenchConnector.CreateAgentAsync\<close>. The services it calls are parameters: the
  default configuration, the JSON round trip of the configuration data (which throws, or
  gives null, or a configuration), the construction of the agent through the service
  provider, and \<^verbatim>\<open>StartAsync\<close> of the agent (which throws or completes). An exception is
  its message.
\<close>

type_synonym exn = string

record ('d, 'c, 'a) services =
  DefaultAgentConfig :: 'c
  jsonRoundTrip :: "'d \<Rightarrow> exn + 'c option"
  CreateInstance :: "string \<Rightarrow> string \<Rightarrow> 'c \<Rightarrow> exn + 'a"
  StartAsync :: "'a \<Rightarrow> exn option"

text \<open>
  The connector: the \<^verbatim>\<open>Agents\<close> dictionary of the base class and the debug log, with the
  agents constructed and the agents started so far, in order.
\<close>

record 'a connector =
  Agents :: "string \<rightharpoonup> 'a"
  Log :: "(string \<times> string list) list"
  constructed :: "'a list"
  started :: "'a list"

text \<open>
  Modelled from the spec: \<^verbatim>\<open>GetAgent\<close> of the base class \<^verbatim>\<open>WorkbenchConnector\<close>, whose
  source is not among the files (only its project file is). The registered agent of an
  id is the entry of \<^verbatim>\<open>Agents\<close> under it, null when there is none.
\<close>

definition GetAgent :: "'a connector \<Rightarrow> string \<Rightarrow> 'a option" where
  "GetAgent s agentId = Agents s agentId"

text \<open>\<^verbatim>\<open>ConcurrentDictionary.TryAdd\<close>: adds the entry when the key is absent.\<close>

definition TryAdd :: "(string \<rightharpoonup> 'a) \<Rightarrow> string \<Rightarrow> 'a \<Rightarrow> (string \<rightharpoonup> 'a)" where
  "TryAdd m k v = (if m k = None then m(k \<mapsto> v) else m)"

definition CreateAgentAsync ::
  "('d, 'c, 'a) services \<Rightarrow> string \<Rightarrow> string option \<Rightarrow> 'd option \<Rightarrow> 'a connector
    \<Rightarrow> (exn + unit) \<times> 'a connector" where
  "CreateAgentAsync svc agentId agentName configData s =
     (if GetAgent s agentId \<noteq> None then (Inr (), s)
      else
        (let s1 = s\<lparr>Log := Log s @ [(''Creating agent '' @ [CHR 0x27] @ ''{0}'' @ [CHR 0x27],
                                      [agentId])]\<rparr> in
         (case (case configData of
                  None \<Rightarrow> Inr (DefaultAgentConfig svc)
                | Some d \<Rightarrow>
                    (case jsonRoundTrip svc d of
                       Inl e \<Rightarrow> Inl e
                     | Inr None \<Rightarrow> Inr (DefaultAgentConfig svc)
                     | Inr (Some newCfg) \<Rightarrow> Inr newCfg)) of
            Inl e \<Rightarrow> (Inl e, s1)
          | Inr config \<Rightarrow>
              (case CreateInstance svc agentId
                      (case agentName of None \<Rightarrow> agentId | Some n \<Rightarrow> n) config of
                 Inl e \<Rightarrow> (Inl e, s1)
               | Inr agent \<Rightarrow>
                   (let s2 = s1\<lparr>constructed := constructed s1 @ [agent]\<rparr> in
                    (case StartAsync svc agent of
                       Some e \<Rightarrow> (Inl e, s2)
                     | None \<Rightarrow>
                         (Inr (),
                          s2\<lparr>started := started s2 @ [agent],
                             Agents := TryAdd (Agents s2) agentId agent\<rparr>)))))))"


section \<open>Sorting with a comparator\<close>

lemma mset_insertSorted: "mset (insertSorted c x xs) = add_mset x (mset xs)"
  by (induction xs) auto

lemma mset_arraySort: "mset (arraySort c xs) = mset xs"
  unfolding arraySort_def by (induction xs) (auto simp: mset_insertSorted)

lemma set_insertSorted: "set (insertSorted c x xs) = insert x (set xs)"
  by (induction xs) auto

lemma sorted_insertSorted:
  assumes total: "\<And>a b. c a b \<le> 0 \<or> c b a \<le> 0"
    and trans: "\<And>a b d. c a b \<le> 0 \<Longrightarrow> c b d \<le> 0 \<Longrightarrow> c a d \<le> 0"
    and "sorted_wrt (\<lambda>a b. c a b \<le> 0) xs"
  shows "sorted_wrt (\<lambda>a b. c a b \<le> (0::int)) (insertSorted c x xs)"
  using assms(3)
proof (induction xs)
  case Nil
  then show ?case by simp
next
  case (Cons y ys)
  show ?case
  proof (cases "c x y \<le> 0")
    case True
    then have "\<forall>z\<in>set ys. c x z \<le> 0"
      using Cons.prems trans by auto
    with True Cons.prems show ?thesis by simp
  next
    case False
    then have "c y x \<le> 0" using total by blast
    with False Cons show ?thesis by (auto simp: set_insertSorted)
  qed
qed

lemma sorted_arraySort:
  assumes total: "\<And>a b. c a b \<le> 0 \<or> c b a \<le> 0"
    and trans: "\<And>a b d. c a b \<le> 0 \<Longrightarrow> c b d \<le> 0 \<Longrightarrow> c a d \<le> 0"
  shows "sorted_wrt (\<lambda>a b. c a b \<le> (0::int)) (arraySort c xs)"
  unfolding arraySort_def
proof (induction xs)
  case Nil
  show ?case by simp
next
  case (Cons x xs)
  have "sorted_wrt (\<lambda>a b. c a b \<le> 0) (insertSorted c x (foldr (insertSorted c) xs []))"
    by (rule sorted_insertSorted [OF total trans Cons.IH])
  then show ?case by simp
qed

lemma ordinalCompare_total: "\<forall>x y. ordinalCompare x y \<le> 0 \<or> ordinalCompare y x \<le> 0"
  by (auto simp: ordinalCompare_def)

lemma ordinalCompare_trans:
  "\<forall>x y z. ordinalCompare x y \<le> 0 \<longrightarrow> ordinalCompare y z \<le> 0 \<longrightarrow> ordinalCompare x z \<le> 0"
  by (auto simp: ordinalCompare_def split: if_splits)

section \<open>The assistant list of a conversation\<close>

lemma findAssistant_None_iff:
  "findAssistant dir p = None \<longleftrightarrow> (\<forall>a\<in>set dir. assistant_id a \<noteq> participant_id p)"
  by (auto simp: findAssistant_def find_None_iff)

text \<open>
  When the directory resolves every active assistant, the loop appends their entries to
  the array in the order of the participants and calls no refetch.
\<close>

lemma assistantsLoop_complete:
  assumes "\<forall>p\<in>set ps. activeAssistant p \<longrightarrow> findAssistant dir p \<noteq> None"
  shows "\<exists>found. assistantsLoop dir ps results calls = (Some (results @ found), calls)
     \<and> map Some found = map (findAssistant dir) (filter activeAssistant ps)"
  using assms
proof (induction ps arbitrary: results)
  case Nil
  then show ?case by simp
next
  case (Cons p rest)
  show ?case
  proof (cases "activeAssistant p")
    case False
    with Cons show ?thesis by auto
  next
    case True
    with Cons.prems obtain a where a: "findAssistant dir p = Some a" by auto
    from Cons.prems have "\<forall>q\<in>set rest. activeAssistant q \<longrightarrow> findAssistant dir q \<noteq> None"
      by simp
    from Cons.IH [OF this, of "results @ [a]"] obtain found where
      f: "assistantsLoop dir rest (results @ [a]) calls = (Some ((results @ [a]) @ found), calls)"
        "map Some found = map (findAssistant dir) (filter activeAssistant rest)"
      by blast
    have "assistantsLoop dir (p # rest) results calls = (Some (results @ (a # found)), calls)"
      using True a f(1) by simp
    moreover have "map Some (a # found) = map (findAssistant dir) (filter activeAssistant (p # rest))"
      using True a f(2) by simp
    ultimately show ?thesis by blast
  qed
qed

text \<open>
  When the directory misses an active assistant, the loop ends at the first one it misses,
  with one refetch, whatever follows in the list.
\<close>

lemma assistantsLoop_miss:
  assumes "\<exists>p\<in>set ps. activeAssistant p \<and> findAssistant dir p = None"
  shows "assistantsLoop dir ps results calls = (None, calls + 1)"
  using assms
proof (induction ps arbitrary: results)
  case Nil
  then show ?case by simp
next
  case (Cons p rest)
  show ?case
  proof (cases "activeAssistant p")
    case False
    with Cons show ?thesis by auto
  next
    case True
    show ?thesis
    proof (cases "findAssistant dir p")
      case None
      with True show ?thesis by simp
    next
      case (Some a)
      with Cons.prems have "\<exists>q\<in>set rest. activeAssistant q \<and> findAssistant dir q = None"
        by auto
      from Cons.IH [OF this] True Some show ?thesis by simp
    qed
  qed
qed

lemma assistantsLoop_stops_at_miss:
  assumes "activeAssistant p" and "findAssistant dir p = None"
  shows "assistantsLoop dir (before @ p # rest) results calls = (None, calls + 1)"
  by (rule assistantsLoop_miss) (use assms in auto)

lemma conversationAssistants_miss_aux:
  assumes "\<exists>p\<in>set P. activeAssistant p \<and> (\<forall>a\<in>set A. assistant_id a \<noteq> participant_id p)"
  shows "conversationAssistants localeCompare (Some P) (Some A) calls = (None, calls + 1)"
proof -
  from assms have "\<exists>p\<in>set P. activeAssistant p \<and> findAssistant A p = None"
    by (simp add: findAssistant_None_iff)
  then have "assistantsLoop A P [] calls = (None, calls + 1)"
    by (rule assistantsLoop_miss)
  then show ?thesis by (simp add: conversationAssistants_def)
qed

text \<open>
  What \<^verbatim>\<open>find\<close> returns for a participant is the first entry of the directory with the
  id of the participant.
\<close>

lemma findAssistant_first:
  assumes "findAssistant dir p = Some a"
  shows "assistant_id a = participant_id p
    \<and> (\<exists>before after. dir = before @ a # after
          \<and> (\<forall>b\<in>set before. assistant_id b \<noteq> participant_id p))"
  using assms unfolding findAssistant_def
proof (induction dir)
  case Nil
  then show ?case by simp
next
  case (Cons x dir)
  show ?case
  proof (cases "assistant_id x = participant_id p")
    case True
    with Cons.prems have "a = x" by simp
    with True have "x # dir = [] @ a # dir \<and> (\<forall>b\<in>set []. assistant_id b \<noteq> participant_id p)"
      by simp
    with True \<open>a = x\<close> show ?thesis by blast
  next
    case False
    with Cons.prems have "find (\<lambda>a. assistant_id a = participant_id p) dir = Some a" by simp
    from Cons.IH [OF this] obtain before after where
      i: "assistant_id a = participant_id p" "dir = before @ a # after"
        "\<forall>b\<in>set before. assistant_id b \<noteq> participant_id p"
      by blast
    from i(2,3) False have "x # dir = (x # before) @ a # after
        \<and> (\<forall>b\<in>set (x # before). assistant_id b \<noteq> participant_id p)"
      by simp
    with i(1) show ?thesis by blast
  qed
qed

lemma found_entries:
  assumes "map Some found = map (findAssistant dir) ps"
  shows "map assistant_id found = map participant_id ps
    \<and> (\<forall>r\<in>set found. \<exists>before after. dir = before @ r # after
          \<and> (\<forall>b\<in>set before. assistant_id b \<noteq> assistant_id r))"
  using assms
proof (induction ps arbitrary: found)
  case Nil
  then show ?case by simp
next
  case (Cons p ps)
  from Cons.prems obtain r rest where f: "found = r # rest"
    by (cases found) auto
  with Cons.prems have h: "findAssistant dir p = Some r"
    and t: "map Some rest = map (findAssistant dir) ps"
    by simp_all
  from findAssistant_first [OF h] have
    i: "assistant_id r = participant_id p"
    and w: "\<exists>before after. dir = before @ r # after
          \<and> (\<forall>b\<in>set before. assistant_id b \<noteq> assistant_id r)"
    by simp_all
  from Cons.IH [OF t] i w show ?case by (simp add: f)
qed

text \<open>
  C1. If the directory \<open>A\<close> holds an entry for the id of every active participant of \<open>P\<close>
  whose role is assistant, the computation returns a list and calls no refetch. The list
  holds exactly the directory entries of those participants, one for each, the inactive
  ones and the other roles left out: its ids are the ids of those participants, each as
  often as it occurs among them; each of its entries is an entry of \<open>A\<close>, the first one
  with its id; so it is as long as the number of those participants. It is in ascending
  order of name under the comparison of the locale. The comparison is taken to be a total
  preorder, as a collation is.
\<close>

theorem conversationAssistants_resolved:
  assumes total: "\<forall>x y. localeCompare x y \<le> 0 \<or> localeCompare y x \<le> 0"
    and trans: "\<forall>x y z. localeCompare x y \<le> 0 \<longrightarrow> localeCompare y z \<le> 0 \<longrightarrow> localeCompare x z \<le> 0"
    and resolvable:
      "\<forall>p\<in>set P. activeAssistant p \<longrightarrow> (\<exists>a\<in>set A. assistant_id a = participant_id p)"
  shows "\<exists>rs. conversationAssistants localeCompare (Some P) (Some A) calls = (Some rs, calls)
      \<and> mset (map Some rs) = mset (map (findAssistant A) (filter activeAssistant P))
      \<and> length rs = length (filter activeAssistant P)
      \<and> sorted_wrt (\<lambda>a b. localeCompare (assistant_name a) (assistant_name b) \<le> 0) rs
      \<and> mset (map assistant_id rs) = mset (map participant_id (filter activeAssistant P))
      \<and> set rs \<subseteq> set A
      \<and> (\<forall>r\<in>set rs. \<exists>before after. A = before @ r # after
            \<and> (\<forall>b\<in>set before. assistant_id b \<noteq> assistant_id r))"
proof -
  let ?c = "\<lambda>a b. localeCompare (assistant_name a) (assistant_name b)"
  from resolvable have "\<forall>p\<in>set P. activeAssistant p \<longrightarrow> findAssistant A p \<noteq> None"
    by (simp add: findAssistant_None_iff)
  from assistantsLoop_complete [OF this, of "[]" calls] obtain found where
    loop: "assistantsLoop A P [] calls = (Some found, calls)"
    and found: "map Some found = map (findAssistant A) (filter activeAssistant P)"
    by auto
  let ?rs = "arraySort ?c found"
  have res: "conversationAssistants localeCompare (Some P) (Some A) calls = (Some ?rs, calls)"
    by (simp add: conversationAssistants_def loop)
  have m: "mset (map Some ?rs) = mset (map (findAssistant A) (filter activeAssistant P))"
  proof -
    have "mset (map Some ?rs) = image_mset Some (mset ?rs)" by simp
    also have "\<dots> = image_mset Some (mset found)" by (simp only: mset_arraySort)
    also have "\<dots> = mset (map Some found)" by simp
    finally show ?thesis by (simp only: found)
  qed
  have len: "length ?rs = length (filter activeAssistant P)"
  proof -
    have "length ?rs = length found"
      by (rule mset_eq_length) (rule mset_arraySort)
    also have "\<dots> = length (filter activeAssistant P)"
      using arg_cong [OF found, of length] by simp
    finally show ?thesis .
  qed
  have srt: "sorted_wrt (\<lambda>a b. ?c a b \<le> 0) ?rs"
  proof (rule sorted_arraySort)
    show "?c a b \<le> 0 \<or> ?c b a \<le> 0" for a b using total by blast
    show "?c a b \<le> 0 \<Longrightarrow> ?c b d \<le> 0 \<Longrightarrow> ?c a d \<le> 0" for a b d using trans by blast
  qed
  note fe = found_entries [OF found]
  have ids: "mset (map assistant_id ?rs) = mset (map participant_id (filter activeAssistant P))"
  proof -
    have "mset (map assistant_id ?rs) = image_mset assistant_id (mset ?rs)" by simp
    also have "\<dots> = image_mset assistant_id (mset found)" by (simp only: mset_arraySort)
    also have "\<dots> = mset (map assistant_id found)" by simp
    finally show ?thesis using fe by simp
  qed
  have same: "set ?rs = set found"
    by (rule mset_eq_setD) (rule mset_arraySort)
  from fe have "\<forall>r\<in>set found. \<exists>before after. A = before @ r # after
            \<and> (\<forall>b\<in>set before. assistant_id b \<noteq> assistant_id r)"
    by (rule conjunct2)
  then have first: "\<forall>r\<in>set ?rs. \<exists>before after. A = before @ r # after
            \<and> (\<forall>b\<in>set before. assistant_id b \<noteq> assistant_id r)"
    by (simp only: same)
  then have sub: "set ?rs \<subseteq> set A"
    by auto
  from res m len srt ids sub first show ?thesis by blast
qed

text \<open>
  A run of C1: a user, two active assistants and an inactive one, against a directory
  that lists the two active ones in the other order. The entries of the two active
  assistants come back, ordered by name.
\<close>

theorem conversationAssistants_resolved_witness:
  "conversationAssistants ordinalCompare
      (Some [\<lparr>participant_id = ''u1'', role = ''user'', active = True\<rparr>,
             \<lparr>participant_id = ''a1'', role = ''assistant'', active = True\<rparr>,
             \<lparr>participant_id = ''a2'', role = ''assistant'', active = False\<rparr>,
             \<lparr>participant_id = ''a3'', role = ''assistant'', active = True\<rparr>])
      (Some [\<lparr>assistant_id = ''a1'', assistant_name = ''Bravo''\<rparr>,
             \<lparr>assistant_id = ''a3'', assistant_name = ''Alpha''\<rparr>]) 0
     = (Some [\<lparr>assistant_id = ''a3'', assistant_name = ''Alpha''\<rparr>,
              \<lparr>assistant_id = ''a1'', assistant_name = ''Bravo''\<rparr>], 0)
   \<and> (\<exists>rs. conversationAssistants ordinalCompare
      (Some [\<lparr>participant_id = ''u1'', role = ''user'', active = True\<rparr>,
             \<lparr>participant_id = ''a1'', role = ''assistant'', active = True\<rparr>,
             \<lparr>participant_id = ''a2'', role = ''assistant'', active = False\<rparr>,
             \<lparr>participant_id = ''a3'', role = ''assistant'', active = True\<rparr>])
      (Some [\<lparr>assistant_id = ''a1'', assistant_name = ''Bravo''\<rparr>,
             \<lparr>assistant_id = ''a3'', assistant_name = ''Alpha''\<rparr>]) 0 = (Some rs, 0)
    \<and> length rs = 2
    \<and> mset (map assistant_id rs) = {#''a1'', ''a3''#}
    \<and> set rs \<subseteq> {\<lparr>assistant_id = ''a1'', assistant_name = ''Bravo''\<rparr>,
                  \<lparr>assistant_id = ''a3'', assistant_name = ''Alpha''\<rparr>}
    \<and> sorted_wrt (\<lambda>a b. ordinalCompare (assistant_name a) (assistant_name b) \<le> 0) rs)"
proof -
  let ?P = "[\<lparr>participant_id = ''u1'', role = ''user'', active = True\<rparr>,
             \<lparr>participant_id = ''a1'', role = ''assistant'', active = True\<rparr>,
             \<lparr>participant_id = ''a2'', role = ''assistant'', active = False\<rparr>,
             \<lparr>participant_id = ''a3'', role = ''assistant'', active = True\<rparr>]"
  let ?A = "[\<lparr>assistant_id = ''a1'', assistant_name = ''Bravo''\<rparr>,
             \<lparr>assistant_id = ''a3'', assistant_name = ''Alpha''\<rparr>]"
  have r: "\<forall>p\<in>set ?P. activeAssistant p \<longrightarrow> (\<exists>a\<in>set ?A. assistant_id a = participant_id p)"
    by simp
  from conversationAssistants_resolved [OF ordinalCompare_total ordinalCompare_trans r, of 0]
  obtain rs where
    "conversationAssistants ordinalCompare (Some ?P) (Some ?A) 0 = (Some rs, 0)"
    "length rs = length (filter activeAssistant ?P)"
    "mset (map assistant_id rs) = mset (map participant_id (filter activeAssistant ?P))"
    "set rs \<subseteq> set ?A"
    "sorted_wrt (\<lambda>a b. ordinalCompare (assistant_name a) (assistant_name b) \<le> 0) rs"
    by blast
  then have
    "conversationAssistants ordinalCompare (Some ?P) (Some ?A) 0 = (Some rs, 0)
      \<and> length rs = 2
      \<and> mset (map assistant_id rs) = {#''a1'', ''a3''#}
      \<and> set rs \<subseteq> {\<lparr>assistant_id = ''a1'', assistant_name = ''Bravo''\<rparr>,
                  \<lparr>assistant_id = ''a3'', assistant_name = ''Alpha''\<rparr>}
      \<and> sorted_wrt (\<lambda>a b. ordinalCompare (assistant_name a) (assistant_name b) \<le> 0) rs"
    by simp
  then have e: "\<exists>rs. conversationAssistants ordinalCompare (Some ?P) (Some ?A) 0 = (Some rs, 0)
      \<and> length rs = 2
      \<and> mset (map assistant_id rs) = {#''a1'', ''a3''#}
      \<and> set rs \<subseteq> {\<lparr>assistant_id = ''a1'', assistant_name = ''Bravo''\<rparr>,
                  \<lparr>assistant_id = ''a3'', assistant_name = ''Alpha''\<rparr>}
      \<and> sorted_wrt (\<lambda>a b. ordinalCompare (assistant_name a) (assistant_name b) \<le> 0) rs"
    by (rule exI)
  have v: "conversationAssistants ordinalCompare (Some ?P) (Some ?A) 0
     = (Some [\<lparr>assistant_id = ''a3'', assistant_name = ''Alpha''\<rparr>,
              \<lparr>assistant_id = ''a1'', assistant_name = ''Bravo''\<rparr>], 0)"
    by (simp add: conversationAssistants_def findAssistant_def arraySort_def ordinalCompare_def)
  from v e show ?thesis by (rule conjI)
qed

text \<open>
  The scenario of the specification: the user is skipped, the inactive assistant is left
  out, and the entry of the active assistant is the whole list.
\<close>

lemma conversationAssistants_scenario:
  "conversationAssistants localeCompare
      (Some [\<lparr>participant_id = ''u1'', role = ''user'', active = True\<rparr>,
             \<lparr>participant_id = ''a1'', role = ''assistant'', active = True\<rparr>,
             \<lparr>participant_id = ''a2'', role = ''assistant'', active = False\<rparr>])
      (Some [\<lparr>assistant_id = ''a1'', assistant_name = ''Bravo''\<rparr>]) 0
   = (Some [\<lparr>assistant_id = ''a1'', assistant_name = ''Bravo''\<rparr>], 0)"
  by (simp add: conversationAssistants_def findAssistant_def arraySort_def)

text \<open>
  C2. If the directory \<open>A\<close> has no entry for the id of some active participant of \<open>P\<close>
  whose role is assistant, the computation returns undefined (\<open>None\<close>: the entries found
  before the miss are dropped) and calls \<^verbatim>\<open>assistantsRefetch\<close> exactly once in the pass,
  however many participants the directory misses: the loop ends at the first of them.
\<close>

theorem conversationAssistants_miss:
  assumes "\<exists>p\<in>set P. activeAssistant p \<and> (\<forall>a\<in>set A. assistant_id a \<noteq> participant_id p)"
  shows "conversationAssistants localeCompare (Some P) (Some A) calls = (None, calls + 1)"
  using assms by (rule conversationAssistants_miss_aux)

text \<open>A run of C2: the directory misses two active assistants and one refetch is made.\<close>

theorem conversationAssistants_miss_witness:
  "conversationAssistants ordinalCompare
      (Some [\<lparr>participant_id = ''a1'', role = ''assistant'', active = True\<rparr>,
             \<lparr>participant_id = ''a3'', role = ''assistant'', active = True\<rparr>,
             \<lparr>participant_id = ''a4'', role = ''assistant'', active = True\<rparr>])
      (Some [\<lparr>assistant_id = ''a1'', assistant_name = ''Bravo''\<rparr>]) 0 = (None, 1)"
proof -
  let ?P = "[\<lparr>participant_id = ''a1'', role = ''assistant'', active = True\<rparr>,
             \<lparr>participant_id = ''a3'', role = ''assistant'', active = True\<rparr>,
             \<lparr>participant_id = ''a4'', role = ''assistant'', active = True\<rparr>]"
  let ?A = "[\<lparr>assistant_id = ''a1'', assistant_name = ''Bravo''\<rparr>]"
  have m: "\<exists>p\<in>set ?P. activeAssistant p \<and> (\<forall>a\<in>set ?A. assistant_id a \<noteq> participant_id p)"
    by simp
  from conversationAssistants_miss [OF m, of ordinalCompare 0] show ?thesis by simp
qed

text \<open>
  C9. If the participants or the assistants have not loaded, the computation returns the
  empty array (not undefined) and calls no refetch; that differs, in the value and in the
  number of refetch calls, from what it returns when the directory misses an assistant.
\<close>

theorem conversationAssistants_not_loaded:
  assumes "P = None \<or> A = None"
  shows "conversationAssistants localeCompare P A calls = (Some [], calls)
    \<and> (\<forall>P' A'. (\<exists>p\<in>set P'. activeAssistant p \<and> (\<forall>a\<in>set A'. assistant_id a \<noteq> participant_id p))
         \<longrightarrow> conversationAssistants localeCompare (Some P') (Some A') calls = (None, calls + 1)
           \<and> fst (conversationAssistants localeCompare P A calls)
               \<noteq> fst (conversationAssistants localeCompare (Some P') (Some A') calls)
           \<and> snd (conversationAssistants localeCompare P A calls)
               \<noteq> snd (conversationAssistants localeCompare (Some P') (Some A') calls))"
proof -
  from assms have e: "conversationAssistants localeCompare P A calls = (Some [], calls)"
    by (auto simp: conversationAssistants_def split: option.splits)
  show ?thesis
    by (simp add: e conversationAssistants_miss_aux)
qed

theorem conversationAssistants_not_loaded_witness:
  "conversationAssistants ordinalCompare
      (None :: participant list option)
      (Some [\<lparr>assistant_id = ''a1'', assistant_name = ''Bravo''\<rparr>]) 0 = (Some [], 0)
   \<and> conversationAssistants ordinalCompare
      (Some [\<lparr>participant_id = ''a1'', role = ''assistant'', active = True\<rparr>])
      (None :: assistant list option) 0 = (Some [], 0)"
proof -
  have a: "conversationAssistants ordinalCompare
      (None :: participant list option)
      (Some [\<lparr>assistant_id = ''a1'', assistant_name = ''Bravo''\<rparr>]) 0 = (Some [], 0)"
    by (rule conversationAssistants_not_loaded [THEN conjunct1]) simp
  have b: "conversationAssistants ordinalCompare
      (Some [\<lparr>participant_id = ''a1'', role = ''assistant'', active = True\<rparr>])
      (None :: assistant list option) 0 = (Some [], 0)"
    by (rule conversationAssistants_not_loaded [THEN conjunct1]) simp
  from a b show ?thesis by (rule conjI)
qed

section \<open>The render of the Chat component\<close>

lemma count_list_filter_if:
  "count_list (filter Q xs) p = (if Q p then count_list xs p else 0)"
  by (induction xs) auto

text \<open>
  C6. For every participant list and every local user id, the other participants are the
  list that \<open>sortParticipants\<close> returns with exactly the entries of the local user's id
  removed: the result is a subsequence of the sorted list (the order of the sort is kept),
  an entry with the local user's id does not occur in it, and every other entry occurs as
  often as in the sorted list.
\<close>

theorem otherParticipants_exact:
  "subseq (otherParticipants sortParticipants localUserId ps) (sortParticipants ps)
   \<and> (\<forall>p. count_list (otherParticipants sortParticipants localUserId ps) p =
        (if Some (participant_id p) = localUserId then 0 else count_list (sortParticipants ps) p))
   \<and> set (otherParticipants sortParticipants localUserId ps) =
        {p \<in> set (sortParticipants ps). Some (participant_id p) \<noteq> localUserId}"
  by (simp add: otherParticipants_def count_list_filter_if)

text \<open>A run of C6, with the reversal of the list as the sort.\<close>

theorem otherParticipants_exact_witness:
  "subseq
     (otherParticipants rev (Some ''u1'')
        [\<lparr>participant_id = ''u1'', role = ''user'', active = True\<rparr>,
         \<lparr>participant_id = ''a1'', role = ''assistant'', active = True\<rparr>,
         \<lparr>participant_id = ''u2'', role = ''user'', active = True\<rparr>])
     [\<lparr>participant_id = ''u2'', role = ''user'', active = True\<rparr>,
      \<lparr>participant_id = ''a1'', role = ''assistant'', active = True\<rparr>,
      \<lparr>participant_id = ''u1'', role = ''user'', active = True\<rparr>]
   \<and> count_list (otherParticipants rev (Some ''u1'')
        [\<lparr>participant_id = ''u1'', role = ''user'', active = True\<rparr>,
         \<lparr>participant_id = ''a1'', role = ''assistant'', active = True\<rparr>,
         \<lparr>participant_id = ''u2'', role = ''user'', active = True\<rparr>])
        \<lparr>participant_id = ''u1'', role = ''user'', active = True\<rparr> = 0
   \<and> count_list (otherParticipants rev (Some ''u1'')
        [\<lparr>participant_id = ''u1'', role = ''user'', active = True\<rparr>,
         \<lparr>participant_id = ''a1'', role = ''assistant'', active = True\<rparr>,
         \<lparr>participant_id = ''u2'', role = ''user'', active = True\<rparr>])
        \<lparr>participant_id = ''a1'', role = ''assistant'', active = True\<rparr> = 1"
proof -
  let ?ps = "[\<lparr>participant_id = ''u1'', role = ''user'', active = True\<rparr>,
         \<lparr>participant_id = ''a1'', role = ''assistant'', active = True\<rparr>,
         \<lparr>participant_id = ''u2'', role = ''user'', active = True\<rparr>]"
  note t = otherParticipants_exact [of rev "Some ''u1''" ?ps]
  from t have a: "subseq (otherParticipants rev (Some ''u1'') ?ps) (rev ?ps)"
    by (rule conjunct1)
  from t have b: "count_list (otherParticipants rev (Some ''u1'') ?ps) p =
        (if Some (participant_id p) = Some ''u1'' then 0 else count_list (rev ?ps) p)" for p
    by (elim conjE allE)
  from a b [of "\<lparr>participant_id = ''u1'', role = ''user'', active = True\<rparr>"]
    b [of "\<lparr>participant_id = ''a1'', role = ''assistant'', active = True\<rparr>"]
  show ?thesis by simp
qed

lemma Chat_loaded:
  assumes "error h = None" "\<not> isLoading h" "\<not> assistantCapabilitiesIsFetching h"
  shows "isl (fst (Chat JSON_stringify localeCompare sortParticipants localUserId conversationId
                     h calls))
     \<longleftrightarrow> conversation h = None \<or> allConversationMessages h = None
          \<or> conversationParticipants h = None \<or> assistants h = None
          \<or> conversationFiles h = None"
  using assms by (simp add: Chat_def split: option.splits prod.splits)

lemma Chat_first_missing:
  assumes "error h = None" "\<not> isLoading h" "\<not> assistantCapabilitiesIsFetching h"
  shows "fst (Chat JSON_stringify localeCompare sortParticipants localUserId conversationId
                 h calls) =
     (if conversation h = None then Inl (''Conversation ('' @ conversationId @ '') not found'')
      else if allConversationMessages h = None
        then Inl (''All conversation messages ('' @ conversationId @ '') not found'')
      else if conversationParticipants h = None
        then Inl (''Conversation participants ('' @ conversationId @ '') not found'')
      else if assistants h = None
        then Inl (''Assistants ('' @ conversationId @ '') not found'')
      else if conversationFiles h = None
        then Inl (''Conversation files ('' @ conversationId @ '') not found'')
      else Inr (ChatView (conversationPermission (the (conversation h)) = ''read'')
             (otherParticipants sortParticipants localUserId (the (conversationParticipants h)))
             (fst (conversationAssistants localeCompare (conversationParticipants h)
                     (assistants h) calls))))"
  using assms by (auto simp: Chat_def split: option.splits prod.splits)

text \<open>
  The claim C7 as written fails on the code: with the history loaded, no load error, the
  conversation absent and the capabilities of the assistants still being fetched, the
  component returns the loading placeholder and throws nothing.
\<close>

theorem Chat_missing_while_fetching_capabilities:
  "error \<lparr>conversation = None, allConversationMessages = None :: string list option,
          conversationParticipants = None, assistants = None,
          conversationFiles = None :: string list option, assistantCapabilities = (),
          error = None :: string option, isLoading = False,
          assistantCapabilitiesIsFetching = True, refetchConversation = 0\<rparr> = None
   \<and> \<not> isLoading \<lparr>conversation = None, allConversationMessages = None :: string list option,
          conversationParticipants = None, assistants = None,
          conversationFiles = None :: string list option, assistantCapabilities = (),
          error = None :: string option, isLoading = False,
          assistantCapabilitiesIsFetching = True, refetchConversation = 0\<rparr>
   \<and> Chat (\<lambda>e. e) ordinalCompare rev (Some ''u1'') ''c1''
        \<lparr>conversation = None, allConversationMessages = None :: string list option,
          conversationParticipants = None, assistants = None,
          conversationFiles = None :: string list option, assistantCapabilities = (),
          error = None :: string option, isLoading = False,
          assistantCapabilitiesIsFetching = True, refetchConversation = 0\<rparr> 0
      = (Inr Loading, 0)"
  by (simp add: Chat_def conversationAssistants_def)

text \<open>
  C7, amended. After the history load signals success (no load error and
  \<^verbatim>\<open>historyIsLoading\<close> false) and once \<^verbatim>\<open>assistantCapabilitiesIsFetching\<close> is false as
  well, the component throws exactly when one of the conversation, the messages, the
  participants, the assistants and the files is absent, with the message of the first one
  absent in that order; nothing else it reads makes it throw, and with all five present it
  returns the chat view.
\<close>

theorem Chat_missing_resource:
  assumes "error h = None" and "\<not> isLoading h" and "\<not> assistantCapabilitiesIsFetching h"
  shows "(isl (fst (Chat JSON_stringify localeCompare sortParticipants localUserId
                      conversationId h calls))
      \<longleftrightarrow> conversation h = None \<or> allConversationMessages h = None
          \<or> conversationParticipants h = None \<or> assistants h = None
          \<or> conversationFiles h = None)
    \<and> fst (Chat JSON_stringify localeCompare sortParticipants localUserId conversationId
              h calls) =
     (if conversation h = None then Inl (''Conversation ('' @ conversationId @ '') not found'')
      else if allConversationMessages h = None
        then Inl (''All conversation messages ('' @ conversationId @ '') not found'')
      else if conversationParticipants h = None
        then Inl (''Conversation participants ('' @ conversationId @ '') not found'')
      else if assistants h = None
        then Inl (''Assistants ('' @ conversationId @ '') not found'')
      else if conversationFiles h = None
        then Inl (''Conversation files ('' @ conversationId @ '') not found'')
      else Inr (ChatView (conversationPermission (the (conversation h)) = ''read'')
             (otherParticipants sortParticipants localUserId (the (conversationParticipants h)))
             (fst (conversationAssistants localeCompare (conversationParticipants h)
                     (assistants h) calls))))"
  by (rule conjI [OF Chat_loaded [OF assms] Chat_first_missing [OF assms]])

text \<open>A run of the amended C7: everything has loaded but the files are absent.\<close>

theorem Chat_missing_resource_witness:
  "fst (Chat (\<lambda>e. e) ordinalCompare rev (Some ''u1'') ''c1''
        \<lparr>conversation =
            Some \<lparr>conversation_id = ''c1'', title = ''T'', conversationPermission = ''read''\<rparr>,
          allConversationMessages = Some [''hello''],
          conversationParticipants = Some [], assistants = Some [],
          conversationFiles = None :: string list option, assistantCapabilities = (),
          error = None :: string option, isLoading = False,
          assistantCapabilitiesIsFetching = False, refetchConversation = 0\<rparr> 0)
   = Inl ''Conversation files (c1) not found''"
proof -
  let ?h = "\<lparr>conversation =
            Some \<lparr>conversation_id = ''c1'', title = ''T'', conversationPermission = ''read''\<rparr>,
          allConversationMessages = Some [''hello''],
          conversationParticipants = Some [], assistants = Some [],
          conversationFiles = None :: string list option, assistantCapabilities = (),
          error = None :: string option, isLoading = False,
          assistantCapabilitiesIsFetching = False, refetchConversation = 0\<rparr>"
  have a: "error ?h = None" "\<not> isLoading ?h" "\<not> assistantCapabilitiesIsFetching ?h"
    by simp_all
  from Chat_missing_resource [OF a, of "\<lambda>e. e" ordinalCompare rev "Some ''u1''" "''c1''" 0,
      THEN conjunct2]
  show ?thesis by simp
qed

lemma runCleanup_effects:
  "refetchCalls (runCleanup w) = refetchCalls w"
  "requests (runCleanup w) = requests w"
  "pending (runCleanup w) = pending w"
  by (cases "cleanup w"; simp add: runCleanup_def)+

text \<open>
  C8. For every load error of the history, the render throws an error whose message holds
  the conversation id and the serialized error. Nothing else handles the failure: the
  render stops before its hooks, so it calls no \<^verbatim>\<open>assistantsRefetch\<close>; for the mounted view
  the throw is an unmount, which calls no \<^verbatim>\<open>refetchConversation\<close> and sends no request.
\<close>

theorem Chat_load_error:
  assumes "error h = Some e"
  shows "\<exists>message.
      Chat JSON_stringify localeCompare sortParticipants localUserId conversationId h calls
        = (Inl message, calls)
    \<and> message = ''Error loading conversation ('' @ conversationId @ ''): '' @ JSON_stringify e
    \<and> sublist conversationId message
    \<and> sublist (JSON_stringify e) message
    \<and> renderAction JSON_stringify localeCompare sortParticipants localUserId conversationId h
        = Unmount
    \<and> refetchCalls (step w Unmount) = refetchCalls w
    \<and> requests (step w Unmount) = requests w
    \<and> pending (step w Unmount) = pending w"
proof -
  let ?m = "''Error loading conversation ('' @ conversationId @ ''): '' @ JSON_stringify e"
  have c: "Chat JSON_stringify localeCompare sortParticipants localUserId conversationId h n
      = (Inl ?m, n)" for n
    using assms by (simp add: Chat_def)
  have s1: "sublist conversationId ?m"
    by (rule sublist_appendI)
  have s2: "sublist (JSON_stringify e) ?m"
    using sublist_appendI
      [of "JSON_stringify e" "''Error loading conversation ('' @ conversationId @ ''): ''"
        "[]"]
    by simp
  have r: "renderAction JSON_stringify localeCompare sortParticipants localUserId
      conversationId h = Unmount"
    by (simp add: renderAction_def c)
  from c s1 s2 r show ?thesis
    by (simp add: runCleanup_effects)
qed

text \<open>A run of C8.\<close>

theorem Chat_load_error_witness:
  "Chat (\<lambda>e. e) ordinalCompare rev (Some ''u1'') ''c1''
        \<lparr>conversation = None, allConversationMessages = None :: string list option,
          conversationParticipants = None, assistants = None,
          conversationFiles = None :: string list option, assistantCapabilities = (),
          error = Some ''{status:404}'', isLoading = False,
          assistantCapabilitiesIsFetching = False, refetchConversation = 0\<rparr> 0
   = (Inl ''Error loading conversation (c1): {status:404}'', 0)"
proof -
  let ?h = "\<lparr>conversation = None, allConversationMessages = None :: string list option,
          conversationParticipants = None, assistants = None,
          conversationFiles = None :: string list option, assistantCapabilities = (),
          error = Some ''{status:404}'', isLoading = False,
          assistantCapabilitiesIsFetching = False, refetchConversation = 0\<rparr>"
  have a: "error ?h = Some ''{status:404}''" by simp
  from Chat_load_error [OF a, of "\<lambda>e. e" ordinalCompare rev "Some ''u1''" "''c1''" 0]
  obtain message where
    "Chat (\<lambda>e. e) ordinalCompare rev (Some ''u1'') ''c1'' ?h 0 = (Inl message, 0)"
    "message = ''Error loading conversation ('' @ ''c1'' @ ''): '' @ ''{status:404}''"
    by blast
  then show ?thesis by simp
qed

section \<open>The subscription of the mounted view\<close>

lemma dispatch_fields:
  "listeners (dispatch l ev w) = listeners w"
  "cleanup (dispatch l ev w) = cleanup w"
  "deps (dispatch l ev w) = deps w"
  "mounted (dispatch l ev w) = mounted w"
  "closures (dispatch l ev w) = closures w"
  by (cases l; simp add: conversationHandler_def)+

lemma deliver_fields:
  fixes f
  defines "f \<equiv> (\<lambda>type ev w' (type', l). if type' = type then dispatch l ev w' else w')"
  shows "listeners (foldl (f type ev) w bus) = listeners w
     \<and> cleanup (foldl (f type ev) w bus) = cleanup w
     \<and> deps (foldl (f type ev) w bus) = deps w
     \<and> mounted (foldl (f type ev) w bus) = mounted w
     \<and> closures (foldl (f type ev) w bus) = closures w"
proof (induction bus arbitrary: w)
  case Nil
  show ?case by simp
next
  case (Cons x bus)
  obtain type' l where x: "x = (type', l)" by (cases x)
  show ?case
    by (simp add: x Cons.IH) (simp add: f_def dispatch_fields)
qed

lemma emit_fields:
  "listeners (emit type ev w) = listeners w"
  "cleanup (emit type ev w) = cleanup w"
  "deps (emit type ev w) = deps w"
  "mounted (emit type ev w) = mounted w"
  "closures (emit type ev w) = closures w"
  using deliver_fields [of type ev w "listeners w"] by (simp_all add: emit_def)

text \<open>A delivery only runs the listeners of this component: the others change nothing here.\<close>

lemma deliver_own:
  "foldl (\<lambda>w' (type', l). if type' = type then dispatch l ev w' else w') w bus =
   foldl (\<lambda>w' (type', l). if type' = type then dispatch l ev w' else w') w
     (filter ownListener bus)"
proof (induction bus arbitrary: w)
  case Nil
  show ?case by simp
next
  case (Cons x bus)
  obtain type' l where x: "x = (type', l)" by (cases x)
  show ?case by (cases l) (simp_all add: x Cons.IH)
qed

lemma emit_subscribed:
  assumes "filter ownListener (listeners w) = [(type', ConversationHandler closure refetch)]"
  shows "emit type ev w = (if type' = type then conversationHandler refetch ev w else w)"
  unfolding emit_def by (subst deliver_own) (simp add: assms)

lemma emit_unsubscribed:
  assumes "filter ownListener (listeners w) = []"
  shows "emit type ev w = w"
  unfolding emit_def by (subst deliver_own) (simp add: assms)

lemma others_not_own: "filter ownListener (map (\<lambda>(type, n). (type, OtherListener n)) others) = []"
  by (induction others) auto

lemma others_younger: "list_all (younger k) (map (\<lambda>(type, n). (type, OtherListener n)) others)"
  by (induction others) auto

lemma subscriptionInv_unmounted: "subscriptionInv (unmounted others)"
  by (simp add: subscriptionInv_def unmounted_def others_not_own others_younger)

lemma inv_unsubscribed:
  "subscriptionInv w \<Longrightarrow> cleanup w = None \<Longrightarrow> filter ownListener (listeners w) = []"
  unfolding subscriptionInv_def by (elim conjE) simp

lemma inv_subscribed:
  "subscriptionInv w \<Longrightarrow> cleanup w = Some handler \<Longrightarrow>
    filter ownListener (listeners w) = [(''conversation.updated'', handler)]"
  unfolding subscriptionInv_def by (elim conjE) simp

lemma inv_handler:
  "subscriptionInv w \<Longrightarrow> cleanup w = Some handler \<Longrightarrow>
    \<exists>closure refetch. handler = ConversationHandler closure refetch
       \<and> mounted w \<and> deps w = Some (False, refetch)"
  unfolding subscriptionInv_def by blast

lemma inv_loaded:
  "subscriptionInv w \<Longrightarrow> mounted w \<Longrightarrow> deps w = Some (False, refetch) \<Longrightarrow>
    \<exists>closure. cleanup w = Some (ConversationHandler closure refetch)"
  unfolding subscriptionInv_def by blast

lemma filter_own_removeAll:
  "filter ownListener (removeAll x bus) = removeAll x (filter ownListener bus)"
  by (induction bus) auto

lemma list_all_removeAll: "list_all Q bus \<Longrightarrow> list_all Q (removeAll x bus)"
  by (induction bus) auto

lemma filter_others_removeAll:
  "ownListener y \<Longrightarrow>
    filter (\<lambda>x. \<not> ownListener x) (removeAll y bus) = filter (\<lambda>x. \<not> ownListener x) bus"
  by (induction bus) auto

lemma runCleanup_fields:
  "cleanup (runCleanup w) = None"
  "closures (runCleanup w) = closures w"
  "mounted (runCleanup w) = mounted w"
  "deps (runCleanup w) = deps w"
  by (cases "cleanup w"; simp add: runCleanup_def)+

lemma runCleanup_own:
  assumes "subscriptionInv w"
  shows "filter ownListener (listeners (runCleanup w)) = []"
proof (cases "cleanup w")
  case None
  with inv_unsubscribed [OF assms None] show ?thesis by (simp add: runCleanup_def)
next
  case (Some handler)
  with inv_subscribed [OF assms Some] show ?thesis
    by (simp add: runCleanup_def removeEventListener_def filter_own_removeAll)
qed

lemma inv_younger: "subscriptionInv w \<Longrightarrow> list_all (younger (closures w)) (listeners w)"
  unfolding subscriptionInv_def by (elim conjE)

lemma runCleanup_younger:
  assumes "subscriptionInv w"
  shows "list_all (younger (closures w)) (listeners (runCleanup w))"
  using inv_younger [OF assms]
  by (cases "cleanup w")
    (simp_all add: runCleanup_def removeEventListener_def list_all_removeAll)

lemma runCleanup_others:
  assumes "subscriptionInv w"
  shows "filter (\<lambda>x. \<not> ownListener x) (listeners (runCleanup w))
    = filter (\<lambda>x. \<not> ownListener x) (listeners w)"
proof (cases "cleanup w")
  case None
  then show ?thesis by (simp add: runCleanup_def)
next
  case (Some handler)
  from inv_handler [OF assms Some] obtain closure refetch
    where "handler = ConversationHandler closure refetch" by blast
  then have "ownListener (''conversation.updated'', handler)" by simp
  with Some show ?thesis
    by (simp add: runCleanup_def removeEventListener_def filter_others_removeAll)
qed

lemma younger_Suc: "younger k x \<Longrightarrow> younger (Suc k) x"
  by (cases "(k, x)" rule: younger.cases) simp_all

lemma list_all_younger_Suc: "list_all (younger k) bus \<Longrightarrow> list_all (younger (Suc k)) bus"
  by (induction bus) (simp_all add: younger_Suc)

lemma younger_not_member:
  "list_all (younger k) bus \<Longrightarrow> (type, ConversationHandler k refetch) \<notin> set bus"
  by (induction bus) auto

lemma subscriptionInv_commit:
  assumes "subscriptionInv w"
  shows "subscriptionInv ((conversationEffect historyIsLoading refetch (runCleanup w))
             \<lparr>mounted := True, deps := Some (historyIsLoading, refetch)\<rparr>)"
proof (cases historyIsLoading)
  case True
  with runCleanup_own [OF assms] runCleanup_younger [OF assms] show ?thesis
    by (simp add: subscriptionInv_def conversationEffect_def runCleanup_fields)
next
  case False
  have fresh: "(''conversation.updated'', ConversationHandler (closures w) refetch)
      \<notin> set (listeners (runCleanup w))"
    by (rule younger_not_member [OF runCleanup_younger [OF assms]])
  from False fresh runCleanup_own [OF assms]
    list_all_younger_Suc [OF runCleanup_younger [OF assms]]
  show ?thesis
    by (simp add: subscriptionInv_def conversationEffect_def addEventListener_def Let_def
        runCleanup_fields)
qed

lemma subscriptionInv_step:
  assumes "subscriptionInv w"
  shows "subscriptionInv (step w a)"
proof (cases a)
  case (Commit historyIsLoading refetch)
  with assms subscriptionInv_commit [OF assms] show ?thesis by simp
next
  case Unmount
  with runCleanup_own [OF assms] runCleanup_younger [OF assms] show ?thesis
    by (simp add: subscriptionInv_def runCleanup_fields)
next
  case (Emit type ev)
  with assms show ?thesis
    by (simp add: subscriptionInv_def emit_fields)
next
  case Settle
  with assms show ?thesis
    by (simp add: subscriptionInv_def)
qed

lemma subscriptionInv_run: "subscriptionInv w \<Longrightarrow> subscriptionInv (run w acts)"
  unfolding run_def by (induction acts arbitrary: w) (simp_all add: subscriptionInv_step)

lemma subscriptionInv_reachable: "subscriptionInv (run (unmounted others) acts)"
  by (rule subscriptionInv_run) (rule subscriptionInv_unmounted)

text \<open>No step touches the listeners of the rest of the application.\<close>

lemma others_step:
  assumes "subscriptionInv w"
  shows "filter (\<lambda>x. \<not> ownListener x) (listeners (step w a))
    = filter (\<lambda>x. \<not> ownListener x) (listeners w)"
proof (cases a)
  case (Commit historyIsLoading refetch)
  then show ?thesis
    by (simp add: conversationEffect_def addEventListener_def Let_def
        runCleanup_others [OF assms])
next
  case Unmount
  then show ?thesis by (simp add: runCleanup_others [OF assms])
next
  case (Emit type ev)
  then show ?thesis by (simp add: emit_fields)
next
  case Settle
  then show ?thesis by simp
qed

lemma others_run:
  assumes "subscriptionInv w"
  shows "filter (\<lambda>x. \<not> ownListener x) (listeners (run w acts))
    = filter (\<lambda>x. \<not> ownListener x) (listeners w)"
  using assms unfolding run_def
proof (induction acts arbitrary: w)
  case Nil
  show ?case by simp
next
  case (Cons a acts)
  from Cons.IH [OF subscriptionInv_step [OF Cons.prems], of a] others_step [OF Cons.prems, of a]
  show ?case by simp
qed

lemma others_reachable:
  "filter (\<lambda>x. \<not> ownListener x) (listeners (run (unmounted others) acts))
    = listeners (unmounted others)"
proof -
  have "filter (\<lambda>x. \<not> ownListener x) (listeners (unmounted others)) = listeners (unmounted others)"
    unfolding unmounted_def by (induction others) auto
  with others_run [OF subscriptionInv_unmounted, of others acts] show ?thesis by simp
qed

lemma filter_none_others: "filter Q xs = [] \<Longrightarrow> filter (\<lambda>x. \<not> Q x) xs = xs"
  by (induction xs) (auto split: if_splits)

text \<open>Deliveries to a view without a listener do nothing; deliveries never change the bus.\<close>

lemma run_emits_fields:
  "listeners (run w (map (\<lambda>(type, ev). Emit type ev) evs)) = listeners w"
  unfolding run_def
  by (induction evs arbitrary: w) (auto simp: emit_fields)

lemma run_emits_unsubscribed:
  assumes "filter ownListener (listeners w) = []"
  shows "run w (map (\<lambda>(type, ev). Emit type ev) evs) = w"
  using assms unfolding run_def
  by (induction evs arbitrary: w) (auto simp: emit_unsubscribed)

lemma emit_calls_bound:
  assumes "subscriptionInv w"
  shows "length (refetchCalls (emit type ev w)) \<le> Suc (length (refetchCalls w))"
proof (cases "cleanup w")
  case None
  from inv_unsubscribed [OF assms None] show ?thesis by (simp add: emit_unsubscribed)
next
  case (Some handler)
  from inv_handler [OF assms Some] obtain closure refetch
    where h: "handler = ConversationHandler closure refetch" by blast
  from inv_subscribed [OF assms Some] have "filter ownListener (listeners w)
      = [(''conversation.updated'', ConversationHandler closure refetch)]"
    by (simp only: h)
  then show ?thesis by (simp add: emit_subscribed conversationHandler_def)
qed

lemma run_emits_calls_bound:
  assumes "subscriptionInv w"
  shows "length (refetchCalls (run w (map (\<lambda>(type, ev). Emit type ev) evs)))
    \<le> length (refetchCalls w) + length evs"
  using assms unfolding run_def
proof (induction evs arbitrary: w)
  case Nil
  show ?case by simp
next
  case (Cons x evs)
  obtain type ev where x: "x = (type, ev)" by (cases x)
  have i: "subscriptionInv (emit type ev w)"
    using subscriptionInv_step [OF Cons.prems, of "Emit type ev"] by simp
  from Cons.IH [OF i] emit_calls_bound [OF Cons.prems, of type ev] show ?case
    by (simp add: x)
qed

lemma inv_member:
  assumes "subscriptionInv w"
    and "(type, ConversationHandler closure refetch) \<in> set (listeners w)"
  shows "type = ''conversation.updated'' \<and> cleanup w = Some (ConversationHandler closure refetch)"
proof -
  from assms(2) have m: "(type, ConversationHandler closure refetch)
      \<in> set (filter ownListener (listeners w))"
    by simp
  show ?thesis
  proof (cases "cleanup w")
    case None
    from inv_unsubscribed [OF assms(1) None] m show ?thesis by simp
  next
    case (Some handler)
    from inv_subscribed [OF assms(1) Some] m Some show ?thesis by simp
  qed
qed

lemma inv_member_older:
  assumes "list_all (younger k) bus" and "(type, ConversationHandler closure refetch) \<in> set bus"
  shows "closure < k"
  using assms by (induction bus) auto

lemma inv_single: "subscriptionInv w \<Longrightarrow> length (filter ownListener (listeners w)) \<le> 1"
  by (cases "cleanup w") (simp_all add: inv_unsubscribed inv_subscribed)

lemma commit_loading_own:
  assumes "subscriptionInv w"
  shows "filter ownListener (listeners (step w (Commit True refetch))) = []"
proof -
  have i: "subscriptionInv (step w (Commit True refetch))"
    by (rule subscriptionInv_step [OF assms])
  have d: "mounted (step w (Commit True refetch))
      \<and> deps (step w (Commit True refetch)) = Some (True, refetch)"
    by simp
  have "cleanup (step w (Commit True refetch)) = None"
  proof (cases "cleanup (step w (Commit True refetch))")
    case None
    then show ?thesis .
  next
    case (Some handler)
    from inv_handler [OF i Some] d show ?thesis by simp
  qed
  from inv_unsubscribed [OF i this] show ?thesis .
qed

lemma commit_changed_removes:
  assumes "subscriptionInv w"
    and "(type, ConversationHandler closure refetch) \<in> set (listeners w)"
    and "deps w \<noteq> Some (historyIsLoading, refetch')"
  shows "(type, ConversationHandler closure refetch)
    \<notin> set (listeners (step w (Commit historyIsLoading refetch')))"
proof
  let ?w' = "step w (Commit historyIsLoading refetch')"
  assume m: "(type, ConversationHandler closure refetch) \<in> set (listeners ?w')"
  have i: "subscriptionInv ?w'" by (rule subscriptionInv_step [OF assms(1)])
  from inv_member [OF i m] have c: "cleanup ?w' = Some (ConversationHandler closure refetch)"
    by simp
  from assms(3) have "cleanup ?w' = cleanup (conversationEffect historyIsLoading refetch' (runCleanup w))"
    by simp
  with c have "closure = closures w"
    by (cases historyIsLoading) (simp_all add: conversationEffect_def Let_def runCleanup_fields)
  moreover from inv_member_older [OF inv_younger [OF assms(1)] assms(2)]
  have "closure < closures w" .
  ultimately show False by simp
qed

text \<open>
  C3. While the view is mounted with its handler on the bus, the delivery of a
  \<^verbatim>\<open>conversation.updated\<close> message to the bus invokes \<^verbatim>\<open>refetchConversation\<close> exactly
  once, the callback that the handler holds and that the last render returned; the call
  asks for the conversation, the messages, the participants and the files in full and
  for nothing else; the outcome is the same for every message, and the bus keeps its
  listeners.
\<close>

theorem conversationHandler_refetches_once:
  assumes "w = run (unmounted others) acts"
    and "(type, ConversationHandler closure refetch) \<in> set (listeners w)"
  shows "refetchCalls (step w (Emit ''conversation.updated'' ev)) = refetchCalls w @ [refetch]
    \<and> requests (step w (Emit ''conversation.updated'' ev)) =
        requests w @ [FullFetch ConversationState, FullFetch MessageState,
                      FullFetch ParticipantState, FullFetch FileState]
    \<and> pending (step w (Emit ''conversation.updated'' ev)) = pending w + 1
    \<and> step w (Emit ''conversation.updated'' ev) = step w (Emit ''conversation.updated'' ev')
    \<and> listeners (step w (Emit ''conversation.updated'' ev)) = listeners w
    \<and> mounted w \<and> deps w = Some (False, refetch)"
proof -
  have i: "subscriptionInv w"
    unfolding assms(1) by (rule subscriptionInv_reachable)
  from inv_member [OF i assms(2)]
  have c: "cleanup w = Some (ConversationHandler closure refetch)" by simp
  from inv_subscribed [OF i c]
  have e: "emit ''conversation.updated'' m w = conversationHandler refetch m w" for m
    by (simp add: emit_subscribed)
  from inv_handler [OF i c] have d: "mounted w \<and> deps w = Some (False, refetch)" by simp
  show ?thesis
    by (simp add: e d conversationHandler_def callRefetchConversation_def)
qed

theorem conversationHandler_refetches_once_witness:
  "refetchCalls
     (step (run (unmounted [(''conversation.updated'', 5)]) [Commit True 7, Commit False 7])
        (Emit ''conversation.updated''
           \<lparr>event_id = ''1'', event = ''conversation.updated'', data = ''{}'', retry = None\<rparr>))
   = [7]"
proof -
  let ?w = "run (unmounted [(''conversation.updated'', 5)]) [Commit True 7, Commit False 7]"
  have m: "(''conversation.updated'', ConversationHandler 0 7) \<in> set (listeners ?w)"
    by (simp add: run_def unmounted_def conversationEffect_def runCleanup_def Let_def
        addEventListener_def)
  have r: "refetchCalls ?w = []"
    by (simp add: run_def unmounted_def conversationEffect_def runCleanup_def Let_def
        addEventListener_def)
  from conversationHandler_refetches_once [OF refl m] r show ?thesis by simp
qed

text \<open>
  C4. At every moment of the life of the view the bus holds at most one listener of this
  component, whatever the renders, deliveries and unmounts before. A listener of this
  component is on the bus only while the view is mounted and the last run of the effect
  saw \<^verbatim>\<open>historyIsLoading\<close> false (never after a commit in which the history is
  loading), and it is registered for \<^verbatim>\<open>conversation.updated\<close>. It is
  removed by an unmount, by a commit in which the history is loading, and by every commit
  whose dependency values differ from those of the last run.
\<close>

theorem subscription_single:
  assumes "w = run (unmounted others) acts"
  shows "length (filter ownListener (listeners w)) \<le> 1
    \<and> (\<forall>type closure refetch. (type, ConversationHandler closure refetch) \<in> set (listeners w)
         \<longrightarrow> type = ''conversation.updated'' \<and> mounted w \<and> deps w = Some (False, refetch))
    \<and> filter ownListener (listeners (step w Unmount)) = []
    \<and> (\<forall>refetch. filter ownListener (listeners (step w (Commit True refetch))) = [])
    \<and> (\<forall>type closure refetch historyIsLoading refetch'.
          (type, ConversationHandler closure refetch) \<in> set (listeners w)
          \<and> deps w \<noteq> Some (historyIsLoading, refetch')
         \<longrightarrow> (type, ConversationHandler closure refetch)
               \<notin> set (listeners (step w (Commit historyIsLoading refetch'))))"
proof -
  have i: "subscriptionInv w"
    unfolding assms by (rule subscriptionInv_reachable)
  have a: "length (filter ownListener (listeners w)) \<le> 1"
    by (rule inv_single [OF i])
  have b: "type = ''conversation.updated'' \<and> mounted w \<and> deps w = Some (False, refetch)"
    if "(type, ConversationHandler closure refetch) \<in> set (listeners w)"
    for type closure refetch
    using inv_member [OF i that] inv_handler [OF i] by auto
  have c: "filter ownListener (listeners (step w Unmount)) = []"
    by (simp add: runCleanup_own [OF i])
  have d: "filter ownListener (listeners (step w (Commit True refetch))) = []" for refetch
    by (rule commit_loading_own [OF i])
  from a b c d commit_changed_removes [OF i] show ?thesis by blast
qed

theorem subscription_single_witness:
  "length (filter ownListener (listeners
      (run (unmounted [(''conversation.updated'', 5)])
         [Commit True 7, Commit False 7, Commit False 8, Commit False 8, Commit False 9]))) \<le> 1
   \<and> listeners
      (run (unmounted [(''conversation.updated'', 5)])
         [Commit True 7, Commit False 7, Commit False 8, Commit False 8, Commit False 9])
     = [(''conversation.updated'', OtherListener 5),
        (''conversation.updated'', ConversationHandler 2 9)]"
proof -
  let ?w = "run (unmounted [(''conversation.updated'', 5)])
         [Commit True 7, Commit False 7, Commit False 8, Commit False 8, Commit False 9]"
  from subscription_single [OF refl, of "[(''conversation.updated'', 5)]"
      "[Commit True 7, Commit False 7, Commit False 8, Commit False 8, Commit False 9]"]
  have a: "length (filter ownListener (listeners ?w)) \<le> 1" by (rule conjunct1)
  have b: "listeners ?w = [(''conversation.updated'', OtherListener 5),
        (''conversation.updated'', ConversationHandler 2 9)]"
    by (simp add: run_def unmounted_def conversationEffect_def runCleanup_def Let_def
        addEventListener_def removeEventListener_def)
  from a b show ?thesis by (rule conjI)
qed

text \<open>
  C5. An unmount leaves the bus as it was before the view mounted: the listener that the
  view added is gone and no other listener is touched. Messages delivered after the
  unmount make no call of \<^verbatim>\<open>refetchConversation\<close>. Before the unmount, deliveries never
  add a listener, whether or not a refetch is pending: the bus holds at most one listener
  of the view, and \<open>n\<close> deliveries make at most \<open>n\<close> calls.
\<close>

theorem unmount_unsubscribes:
  assumes "w = run (unmounted others) acts"
  shows "listeners (step w Unmount) = listeners (unmounted others)
    \<and> filter ownListener (listeners (step w Unmount)) = []
    \<and> (\<forall>evs. refetchCalls (run (step w Unmount) (map (\<lambda>(type, ev). Emit type ev) evs))
          = refetchCalls w)
    \<and> (\<forall>evs. listeners (run w (map (\<lambda>(type, ev). Emit type ev) evs)) = listeners w)
    \<and> (\<forall>evs. length (refetchCalls (run w (map (\<lambda>(type, ev). Emit type ev) evs)))
          \<le> length (refetchCalls w) + length evs)
    \<and> length (filter ownListener (listeners w)) \<le> 1"
proof -
  have i: "subscriptionInv w"
    unfolding assms by (rule subscriptionInv_reachable)
  have own: "filter ownListener (listeners (step w Unmount)) = []"
    by (simp add: runCleanup_own [OF i])
  have "run (unmounted others) (acts @ [Unmount]) = step w Unmount"
    by (simp add: run_def assms)
  with others_reachable [of others "acts @ [Unmount]"]
  have "filter (\<lambda>x. \<not> ownListener x) (listeners (step w Unmount)) = listeners (unmounted others)"
    by simp
  with filter_none_others [OF own]
  have bus: "listeners (step w Unmount) = listeners (unmounted others)" by simp
  have quiet: "refetchCalls (run (step w Unmount) (map (\<lambda>(type, ev). Emit type ev) evs))
      = refetchCalls w" for evs
  proof -
    have "run (step w Unmount) (map (\<lambda>(type, ev). Emit type ev) evs) = step w Unmount"
      by (rule run_emits_unsubscribed [OF own])
    then show ?thesis by (simp add: runCleanup_effects)
  qed
  from bus own quiet run_emits_fields [of w] run_emits_calls_bound [OF i] inv_single [OF i]
  show ?thesis by blast
qed

theorem unmount_unsubscribes_witness:
  "listeners (step (run (unmounted [(''conversation.updated'', 5)])
       [Commit False 7, Emit ''conversation.updated''
           \<lparr>event_id = ''1'', event = ''conversation.updated'', data = ''{}'', retry = None\<rparr>])
       Unmount)
     = [(''conversation.updated'', OtherListener 5)]
   \<and> refetchCalls (run (step (run (unmounted [(''conversation.updated'', 5)])
       [Commit False 7, Emit ''conversation.updated''
           \<lparr>event_id = ''1'', event = ''conversation.updated'', data = ''{}'', retry = None\<rparr>])
       Unmount)
       (map (\<lambda>(type, ev). Emit type ev)
         [(''conversation.updated'',
           \<lparr>event_id = ''2'', event = ''conversation.updated'', data = ''{}'', retry = None\<rparr>),
          (''conversation.updated'',
           \<lparr>event_id = ''3'', event = ''conversation.updated'', data = ''{}'', retry = None\<rparr>)]))
     = [7]"
proof -
  let ?acts = "[Commit False 7, Emit ''conversation.updated''
           \<lparr>event_id = ''1'', event = ''conversation.updated'', data = ''{}'', retry = None\<rparr>]"
  let ?w = "run (unmounted [(''conversation.updated'', 5)]) ?acts"
  note t = unmount_unsubscribes [OF refl, of "[(''conversation.updated'', 5)]" ?acts]
  have r: "refetchCalls ?w = [7]"
    by (simp add: run_def unmounted_def conversationEffect_def runCleanup_def Let_def
        addEventListener_def emit_def conversationHandler_def)
  from t have a: "listeners (step ?w Unmount) = listeners (unmounted [(''conversation.updated'', 5)])"
    by (rule conjunct1)
  from t have b: "refetchCalls (run (step ?w Unmount) (map (\<lambda>(type, ev). Emit type ev) evs))
          = refetchCalls ?w" for evs
    by (elim conjE allE)
  have a': "listeners (step ?w Unmount) = [(''conversation.updated'', OtherListener 5)]"
    by (rule trans [OF a]) (simp add: unmounted_def)
  from a' trans [OF b r] show ?thesis by (rule conjI)
qed

section \<open>The creation of an agent\<close>

lemma CreateAgentAsync_registered:
  assumes "GetAgent s agentId \<noteq> None"
  shows "CreateAgentAsync svc agentId agentName configData s = (Inr (), s)"
  using assms by (simp add: CreateAgentAsync_def)

text \<open>A call that returns without an exception leaves an agent registered under the id.\<close>

lemma CreateAgentAsync_registers:
  assumes "CreateAgentAsync svc agentId agentName configData s = (Inr (), s')"
  shows "GetAgent s' agentId \<noteq> None"
proof (cases "GetAgent s agentId")
  case (Some a)
  with assms show ?thesis by (simp add: CreateAgentAsync_def)
next
  case None
  with assms show ?thesis
    by (auto simp: CreateAgentAsync_def GetAgent_def TryAdd_def Let_def
        split: option.splits sum.splits)
qed

text \<open>
  Beyond the claim: a first call that returns normally makes every later call for the id,
  with any name and configuration, return at once.
\<close>

lemma CreateAgentAsync_twice:
  assumes "CreateAgentAsync svc agentId agentName configData s = (Inr (), s')"
  shows "CreateAgentAsync svc agentId agentName' configData' s' = (Inr (), s')"
  by (rule CreateAgentAsync_registered) (rule CreateAgentAsync_registers [OF assms])

text \<open>
  C10. For every agent id under which an agent is registered, \<^verbatim>\<open>CreateAgentAsync\<close> returns
  at once: it throws nothing, constructs and starts no agent, writes no log entry and
  leaves \<^verbatim>\<open>Agents\<close> as it is. Hence a second call with the same id changes nothing after
  the first.
\<close>

theorem CreateAgentAsync_idempotent:
  assumes "GetAgent s agentId \<noteq> None"
  shows "CreateAgentAsync svc agentId agentName configData s = (Inr (), s)
    \<and> Agents (snd (CreateAgentAsync svc agentId agentName configData s)) = Agents s
    \<and> constructed (snd (CreateAgentAsync svc agentId agentName configData s)) = constructed s
    \<and> started (snd (CreateAgentAsync svc agentId agentName configData s)) = started s
    \<and> CreateAgentAsync svc agentId agentName configData
         (snd (CreateAgentAsync svc agentId agentName configData s))
        = CreateAgentAsync svc agentId agentName configData s"
  by (simp add: CreateAgentAsync_registered [OF assms])

theorem CreateAgentAsync_idempotent_witness:
  "CreateAgentAsync
     \<lparr>DefaultAgentConfig = ''default'',
      jsonRoundTrip = (\<lambda>d. Inr (Some d)),
      CreateInstance = (\<lambda>i n c. Inr (i, n, c)),
      StartAsync = (\<lambda>a. None)\<rparr>
     ''agent-1'' (Some ''Echo'') (Some ''cfg'')
     \<lparr>Agents = [''agent-1'' \<mapsto> (''agent-1'', ''First'', ''default'')], Log = [],
      constructed = [(''agent-1'', ''First'', ''default'')],
      started = [(''agent-1'', ''First'', ''default'')]\<rparr>
   = (Inr (),
      \<lparr>Agents = [''agent-1'' \<mapsto> (''agent-1'', ''First'', ''default'')], Log = [],
       constructed = [(''agent-1'', ''First'', ''default'')],
       started = [(''agent-1'', ''First'', ''default'')]\<rparr>)"
proof -
  let ?s = "\<lparr>Agents = [''agent-1'' \<mapsto> (''agent-1'', ''First'', ''default'')], Log = [],
      constructed = [(''agent-1'', ''First'', ''default'')],
      started = [(''agent-1'', ''First'', ''default'')]\<rparr>"
  have r: "GetAgent ?s ''agent-1'' \<noteq> None" by (simp add: GetAgent_def)
  from CreateAgentAsync_idempotent [OF r] show ?thesis by (rule conjunct1)
qed

text \<open>A first call on an empty connector, then a second: the second changes nothing.\<close>

lemma CreateAgentAsync_run:
  "CreateAgentAsync
     \<lparr>DefaultAgentConfig = ''default'',
      jsonRoundTrip = (\<lambda>d. Inr (Some d)),
      CreateInstance = (\<lambda>i n c. Inr (i, n, c)),
      StartAsync = (\<lambda>a. None)\<rparr>
     ''agent-1'' None (Some ''cfg'')
     \<lparr>Agents = Map.empty, Log = [], constructed = [], started = []\<rparr>
   = (Inr (),
      \<lparr>Agents = [''agent-1'' \<mapsto> (''agent-1'', ''agent-1'', ''cfg'')],
       Log = [(''Creating agent '{0}'' @ [CHR 0x27], [''agent-1''])],
       constructed = [(''agent-1'', ''agent-1'', ''cfg'')],
       started = [(''agent-1'', ''agent-1'', ''cfg'')]\<rparr>)"
  by (simp add: CreateAgentAsync_def GetAgent_def TryAdd_def)

end
